theory Spec2Isabelle
  imports Main "HOL-Library.Sublist"
begin

section \<open>The crawl runner (ScrapeRunner.js, class ScrapeRunner)\<close>

text \<open>
  The runner is a chain of promises. JavaScript runs every callback to completion and
  drains the microtask queue before the next external event (a load-stop signal, a timer,
  the result of a script evaluation, a call of \<open>start()\<close> or \<open>stop()\<close>) is delivered.
  The model therefore has one transition per external event: the event's callback together
  with all the promise callbacks that become runnable without a further external event.
  Between two events the chain of \<open>start()\<close> is suspended at one of the places of
  type \<open>pc\<close>.
\<close>

subsection \<open>Data\<close>

datatype ScrapeState = initialized | running | canceled | finished

text \<open>
  \<open>ScrapeStatus\<close> without \<open>ppm\<close> and \<open>ppmLimit\<close>: both are floating-point figures
  taken from the token bucket and the configuration, and nothing below reads them.
\<close>

record ScrapeStatus =
  state :: ScrapeState
  pagesVisited :: nat
  pagesRemaining :: nat

record ScrapeConfig =
  firstPage :: string
  rootUrls :: "string list"
  dryRun :: bool

text \<open>What the runner does to its collaborators, in the order it does it.\<close>

datatype effect =
    LoadURL string                 \<comment> \<open>\<open>tab.loadURL(url)\<close> of a crawled page\<close>
  | LoadAllPages                   \<comment> \<open>\<open>activeTab.loadURL(contentUrl(allPagesUrl))\<close>\<close>
  | Report ScrapeStatus            \<comment> \<open>\<open>this.reporter(this, this.status)\<close>\<close>
  | ExecuteJavaScript              \<comment> \<open>the link-extraction script is sent to the page\<close>
  | StartRecordingSession
  | FinishRecordingSession
  | TakeTokens                     \<comment> \<open>\<open>this.limiter.takeTokens(1)\<close>\<close>
  | NotifyStopped                  \<comment> \<open>\<open>this.notifyStopped()\<close> is invoked\<close>
  | CycleExited                    \<comment> \<open>\<open>advanceQueue\<close> found \<open>this.stopping\<close> set and returned\<close>
  | StopResolved                   \<comment> \<open>the promise returned by \<open>stop()\<close> is fulfilled\<close>
  | StartResolved                  \<comment> \<open>the promise returned by \<open>start()\<close> is fulfilled\<close>
  | StartRejected                  \<comment> \<open>the promise returned by \<open>start()\<close> is rejected\<close>

text \<open>Where the promise chain of \<open>start()\<close> is suspended.\<close>

datatype pc =
    Idle                           \<comment> \<open>no chain in flight\<close>
  | AwaitRecordingStart            \<comment> \<open>\<open>app.startRecordingSession()\<close> pending\<close>
  | AwaitLoad                      \<comment> \<open>\<open>waitForPage\<close>: waiting for \<open>did-stop-loading\<close>\<close>
  | AwaitScript                    \<comment> \<open>\<open>examinePage\<close>: \<open>executeJavaScript\<close> pending\<close>
  | AwaitDelay string              \<comment> \<open>\<open>rateLimit\<close>: timer pending, \<open>nextUrl\<close> captured\<close>
  | AwaitRecordingFinish           \<comment> \<open>\<open>app.finishRecordingSession()\<close> pending\<close>

text \<open>
  The fields of the runner (\<open>status\<close> to \<open>notifyStopped\<close>; \<open>notifyStopped\<close> is
  \<open>True\<close> when a continuation is stored in it), what the runner reads from the tab and
  the application (\<open>url\<close>, \<open>loading\<close>, \<open>activeTab\<close>, \<open>recording\<close>), and the
  position and the trace of the run.
\<close>

record crawl =
  status :: ScrapeStatus
  allKnownPages :: "string set"
  queue :: "string list"
  stopping :: bool
  notifyStopped :: bool
  url :: string
  loading :: bool
  activeTab :: bool
  recording :: bool
  pc :: pc
  trace :: "effect list"

text \<open>The external events a run receives.\<close>

datatype event =
    Start                          \<comment> \<open>\<open>start()\<close> is called\<close>
  | Stop                           \<comment> \<open>\<open>stop()\<close> is called\<close>
  | RecordingStarted               \<comment> \<open>\<open>startRecordingSession()\<close> is fulfilled\<close>
  | DidStopLoading string          \<comment> \<open>\<open>did-stop-loading\<close>; the tab now shows this URL\<close>
  | ScriptResult "string list"     \<comment> \<open>the hrefs the link-extraction script resolved\<close>
  | Rejected                       \<comment> \<open>the pending external promise is rejected\<close>
  | TimerFired bool                \<comment> \<open>the delay elapsed; what \<open>limiter.hasTokens(1)\<close> says\<close>
  | IntervalFired                  \<comment> \<open>the one-second reporting interval\<close>
  | RecordingFinished              \<comment> \<open>\<open>finishRecordingSession()\<close> is fulfilled\<close>

subsection \<open>Operations\<close>

text \<open>The constructor, and the tab and application as the runner finds them.\<close>

definition newRunner :: "string \<Rightarrow> bool \<Rightarrow> bool \<Rightarrow> bool \<Rightarrow> crawl" where
  "newRunner u l a r =
     \<lparr> status = \<lparr> state = initialized, pagesVisited = 0, pagesRemaining = 1 \<rparr>,
       allKnownPages = {}, queue = [], stopping = False, notifyStopped = False,
       url = u, loading = l, activeTab = a, recording = r,
       pc = Idle, trace = [] \<rparr>"

definition emit :: "effect \<Rightarrow> crawl \<Rightarrow> crawl" where
  "emit e c = c\<lparr> trace := trace c @ [e] \<rparr>"

definition setState :: "ScrapeState \<Rightarrow> crawl \<Rightarrow> crawl" where
  "setState s c = c\<lparr> status := (status c)\<lparr> state := s \<rparr> \<rparr>"

text \<open>\<open>report()\<close>: recompute \<open>pagesRemaining\<close>, hand the status to the reporter.\<close>

definition report :: "crawl \<Rightarrow> crawl" where
  "report c =
     (let st = (status c)\<lparr> pagesRemaining := length (queue c) \<rparr>
      in emit (Report st) (c\<lparr> status := st \<rparr>))"

text \<open>
  \<open>tab.loadURL(url)\<close>: the web contents start loading, so \<open>isLoading()\<close> answers true
  until the next \<open>did-stop-loading\<close>.
\<close>

definition tab_loadURL :: "string \<Rightarrow> crawl \<Rightarrow> crawl" where
  "tab_loadURL u c = emit (LoadURL u) (c\<lparr> loading := True \<rparr>)"

text \<open>
  \<open>this.config.rootUrls.find(root => x.startsWith(root))\<close> used as a condition:
  \<open>find\<close> returns the first matching root, and the empty string is falsy.
\<close>

definition knownRoot :: "string list \<Rightarrow> string \<Rightarrow> bool" where
  "knownRoot roots x =
     (case List.find (\<lambda>root. prefix root x) roots of
        None \<Rightarrow> False
      | Some root \<Rightarrow> root \<noteq> [])"

text \<open>The last callback of \<open>start()\<close>; after it the promise of \<open>start()\<close> is fulfilled.\<close>

definition finishStart :: "crawl \<Rightarrow> crawl" where
  "finishStart c =
     emit StartResolved
       ((if stopping c then c
         else if \<not> activeTab c then c
         else emit LoadAllPages (c\<lparr> loading := True \<rparr>))\<lparr> pc := Idle \<rparr>)"

text \<open>The callback of \<open>start()\<close> that runs once \<open>advanceQueue\<close> has settled.\<close>

definition crawlEnded :: "ScrapeConfig \<Rightarrow> crawl \<Rightarrow> crawl" where
  "crawlEnded cfg c =
     (if \<not> dryRun cfg then emit FinishRecordingSession (c\<lparr> pc := AwaitRecordingFinish \<rparr>)
      else finishStart c)"

text \<open>
  \<open>loadNextPage\<close> up to the timer of \<open>rateLimit\<close>. \<open>queue.shift()\<close> gives
  \<open>undefined\<close> on the empty queue, and \<open>!nextUrl\<close> also holds for the empty string.
\<close>

definition loadNextPage :: "ScrapeConfig \<Rightarrow> crawl \<Rightarrow> crawl" where
  "loadNextPage cfg c =
     (case queue c of
        [] \<Rightarrow> crawlEnded cfg (report (setState finished c))
      | nextUrl # rest \<Rightarrow>
          (let c1 = c\<lparr> queue := rest \<rparr>
           in if nextUrl = [] then crawlEnded cfg (report (setState finished c1))
              else c1\<lparr> pc := AwaitDelay nextUrl \<rparr>))"

text \<open>
  The script of \<open>examinePage\<close> sets \<open>url.hash = ""\<close> on every resolved href before it
  returns \<open>url.href\<close>: the serialisation then ends before the first \<open>#\<close>.
\<close>

definition stripHash :: "string \<Rightarrow> string" where
  "stripHash u = takeWhile (\<lambda>ch. ch \<noteq> CHR ''#'') u"

text \<open>\<open>newLinks.forEach(...)\<close>.\<close>

fun enqueue :: "string list \<Rightarrow> crawl \<Rightarrow> crawl" where
  "enqueue [] c = c"
| "enqueue (link # links) c =
     enqueue links
       (if link \<in> allKnownPages c then c
        else c\<lparr> allKnownPages := insert link (allKnownPages c),
                queue := queue c @ [link] \<rparr>)"

text \<open>The callback of \<open>examinePage\<close> that receives \<open>allLinks\<close>.\<close>

definition examineLinks :: "ScrapeConfig \<Rightarrow> string list \<Rightarrow> crawl \<Rightarrow> crawl" where
  "examineLinks cfg allLinks c = enqueue (filter (knownRoot (rootUrls cfg)) allLinks) c"

text \<open>
  \<open>examinePage\<close> up to the evaluation of the script. The result says whether the
  returned promise is still pending (the script was sent) or already fulfilled.
\<close>

definition examinePage :: "ScrapeConfig \<Rightarrow> crawl \<Rightarrow> bool \<times> crawl" where
  "examinePage cfg c =
     (let c1 = report (c\<lparr> status := (status c)\<lparr> pagesVisited := pagesVisited (status c) + 1 \<rparr> \<rparr>)
      in if \<not> knownRoot (rootUrls cfg) (url c1) then (False, c1)
         else (True, emit ExecuteJavaScript
                       (c1\<lparr> allKnownPages := insert (url c1) (allKnownPages c1) \<rparr>)))"

text \<open>\<open>.then(() => this.examinePage(tab)).then(() => this.loadNextPage(tab))\<close>.\<close>

definition pageSettled :: "ScrapeConfig \<Rightarrow> crawl \<Rightarrow> crawl" where
  "pageSettled cfg c =
     (case examinePage cfg c of
        (True, c1) \<Rightarrow> c1\<lparr> pc := AwaitScript \<rparr>
      | (False, c1) \<Rightarrow> loadNextPage cfg c1)"

text \<open>\<open>advanceQueue\<close>, with \<open>waitForPage\<close> inlined.\<close>

definition advanceQueue :: "ScrapeConfig \<Rightarrow> crawl \<Rightarrow> crawl" where
  "advanceQueue cfg c =
     (if stopping c
      then crawlEnded cfg
             (emit CycleExited (if notifyStopped c then emit NotifyStopped c else c))
      else if loading c then c\<lparr> pc := AwaitLoad \<rparr>
      else pageSettled cfg c)"

text \<open>
  \<open>start()\<close>. It throws without an active tab, before it changes anything. The first
  three callbacks of its chain run without an external event unless a recording session
  has to be started.
\<close>

definition start :: "ScrapeConfig \<Rightarrow> crawl \<Rightarrow> string + crawl" where
  "start cfg c =
     (if \<not> activeTab c then Inl ''No active tab''
      else
        let c1 = setState running c;
            c2 = (if url c1 \<noteq> firstPage cfg then tab_loadURL (firstPage cfg) c1 else c1)
        in Inr (if dryRun cfg \<or> recording c2 then advanceQueue cfg c2
                else emit StartRecordingSession (c2\<lparr> pc := AwaitRecordingStart \<rparr>)))"

text \<open>
  \<open>stop()\<close>. \<open>Promise.resolve(f)\<close> is a promise already fulfilled with the function
  \<open>f\<close> as its value: \<open>f\<close> is never called, so \<open>notifyStopped\<close> is not assigned, and
  the \<open>then\<close> callback is a microtask of the task that called \<open>stop()\<close>.
\<close>

definition stop :: "crawl \<Rightarrow> crawl" where
  "stop c = emit StopResolved (report (setState canceled (c\<lparr> stopping := True \<rparr>)))"

text \<open>
  One external event. A second \<open>start()\<close> while a chain is in flight would run two
  chains over one runner; the model has one position only and gives \<open>None\<close> there.
\<close>

definition step :: "ScrapeConfig \<Rightarrow> crawl \<Rightarrow> event \<Rightarrow> crawl option" where
  "step cfg c ev =
     (case ev of
        Start \<Rightarrow>
          (if pc c \<noteq> Idle then None
           else (case start cfg c of Inl err \<Rightarrow> Some c | Inr c' \<Rightarrow> Some c'))
      | Stop \<Rightarrow> Some (stop c)
      | RecordingStarted \<Rightarrow>
          Some (if pc c = AwaitRecordingStart then advanceQueue cfg (c\<lparr> recording := True \<rparr>)
                else c)
      | DidStopLoading u \<Rightarrow>
          (let c1 = c\<lparr> url := u, loading := False \<rparr>
           in Some (if pc c = AwaitLoad then pageSettled cfg c1 else c1))
      | ScriptResult hrefs \<Rightarrow>
          Some (if pc c = AwaitScript
                then loadNextPage cfg (examineLinks cfg (map stripHash hrefs) c)
                else c)
      | Rejected \<Rightarrow>
          Some (if pc c \<in> {AwaitRecordingStart, AwaitScript, AwaitRecordingFinish}
                then emit StartRejected (c\<lparr> pc := Idle \<rparr>)
                else c)
      | TimerFired hasTokens \<Rightarrow>
          Some (case pc c of
                  AwaitDelay nextUrl \<Rightarrow>
                    if \<not> hasTokens then c
                    else advanceQueue cfg (tab_loadURL nextUrl (emit TakeTokens c))
                | _ \<Rightarrow> c)
      | IntervalFired \<Rightarrow> Some (if pc c = AwaitLoad then report c else c)
      | RecordingFinished \<Rightarrow>
          Some (if pc c = AwaitRecordingFinish then finishStart (c\<lparr> recording := False \<rparr>)
                else c))"

fun run :: "ScrapeConfig \<Rightarrow> crawl \<Rightarrow> event list \<Rightarrow> crawl option" where
  "run cfg c [] = Some c"
| "run cfg c (ev # evs) =
     (case step cfg c ev of None \<Rightarrow> None | Some c' \<Rightarrow> run cfg c' evs)"

text \<open>The configuration and the tab of the end-to-end scenarios.\<close>

definition exampleConfig :: ScrapeConfig where
  "exampleConfig =
     \<lparr> firstPage = ''https://example.com/a'',
       rootUrls = [''https://example.com/''],
       dryRun = False \<rparr>"

definition exampleTab :: crawl where
  "exampleTab = newRunner ''about:blank'' False True False"

section \<open>Page tracking of a tab (ScrapeRunner.js, classes PageTracker and Tab)\<close>

text \<open>
  The archive calls a handler issues, in the order the handlers issue them. Each call
  is chained on a promise of a page identifier; an identifier is named by the position
  of the \<open>upsertPage\<close> call that yields it. The calls are taken to be performed before
  the next event arrives.
\<close>

datatype archiveCall =
    UpsertPage string string "string option"   \<comment> \<open>\<open>url\<close>, \<open>title\<close>, \<open>originalUrl\<close>\<close>
  | SetPageTitle nat string

record PageTracker =
  rootUrl :: string
  rootPageId :: nat
  currentPageId :: nat

record Tab =
  activePage :: "PageTracker option"
  archive :: "archiveCall list"

text \<open>What a handler reads from the network adapter and the web contents.\<close>

record browser =
  isRecording :: bool
  urlBypassesPersister :: "string \<Rightarrow> bool"
  getTitle :: string

datatype tabEvent =
    DidNavigate string int           \<comment> \<open>\<open>did-navigate\<close>: \<open>url\<close>, \<open>statusCode\<close>\<close>
  | PageTitleUpdated string          \<comment> \<open>\<open>page-title-updated\<close>: \<open>title\<close>\<close>
  | DidNavigateInPage string bool    \<comment> \<open>\<open>did-navigate-in-page\<close>: \<open>url\<close>, \<open>isMainFrame\<close>\<close>
  | TabLoadURL string                \<comment> \<open>\<open>Tab.loadURL(url)\<close>\<close>
  | ErrorPageShown                   \<comment> \<open>\<open>handleLoadFailure\<close> finds the error page loaded\<close>

text \<open>\<open>new PageTracker(archive, collectionId, rootUrl, initialTitle)\<close>.\<close>

definition newPageTracker :: "string \<Rightarrow> string \<Rightarrow> Tab \<Rightarrow> Tab" where
  "newPageTracker u initialTitle t =
     t\<lparr> activePage := Some \<lparr> rootUrl = u, rootPageId = length (archive t),
                              currentPageId = length (archive t) \<rparr>,
        archive := archive t @ [UpsertPage u initialTitle None] \<rparr>"

definition trackInPageNavigation :: "PageTracker \<Rightarrow> string \<Rightarrow> string \<Rightarrow> Tab \<Rightarrow> Tab" where
  "trackInPageNavigation p u title t =
     t\<lparr> activePage := Some (p\<lparr> currentPageId := length (archive t) \<rparr>),
        archive := archive t @
          [UpsertPage u title (if u = rootUrl p then None else Some (rootUrl p))] \<rparr>"

definition trackTitleChange :: "PageTracker \<Rightarrow> string \<Rightarrow> Tab \<Rightarrow> Tab" where
  "trackTitleChange p title t =
     t\<lparr> archive := archive t @ [SetPageTitle (currentPageId p) title] \<rparr>"

definition handleTitleUpdated :: "browser \<Rightarrow> string \<Rightarrow> Tab \<Rightarrow> Tab" where
  "handleTitleUpdated b title t =
     (case activePage t of
        Some p \<Rightarrow> if isRecording b then trackTitleChange p title t else t
      | None \<Rightarrow> t)"

definition handleNavigation :: "browser \<Rightarrow> string \<Rightarrow> int \<Rightarrow> Tab \<Rightarrow> Tab" where
  "handleNavigation b u statusCode t =
     (if isRecording b \<and> \<not> urlBypassesPersister b u \<and> statusCode > 0
      then newPageTracker u (getTitle b) t
      else t\<lparr> activePage := None \<rparr>)"

definition handleInPageNavigation :: "browser \<Rightarrow> string \<Rightarrow> bool \<Rightarrow> Tab \<Rightarrow> Tab" where
  "handleInPageNavigation b u isMainFrame t =
     (case activePage t of
        Some p \<Rightarrow>
          if isRecording b \<and> isMainFrame then trackInPageNavigation p u (getTitle b) t
          else t
      | None \<Rightarrow> t)"

fun handle :: "Tab \<Rightarrow> browser \<times> tabEvent \<Rightarrow> Tab" where
  "handle t (b, DidNavigate u statusCode) = handleNavigation b u statusCode t"
| "handle t (b, PageTitleUpdated title) = handleTitleUpdated b title t"
| "handle t (b, DidNavigateInPage u isMainFrame) = handleInPageNavigation b u isMainFrame t"
| "handle t (b, TabLoadURL u) = t\<lparr> activePage := None \<rparr>"
| "handle t (b, ErrorPageShown) = t\<lparr> activePage := None \<rparr>"

fun isDidNavigate :: "tabEvent \<Rightarrow> bool" where
  "isDidNavigate (DidNavigate u statusCode) = True"
| "isDidNavigate ev = False"

section \<open>The channel to the page (ScrapeRunner.js, Tab.installIpcServer)\<close>

text \<open>
  The argument and the answer of one evaluation of \<open>window.ipcClient.advanceQueue\<close>:
  the host sends \<open>null\<close>, \<open>{data}\<close> or \<open>{error}\<close>, and the page answers \<open>null\<close> or
  a request. A handler's promise is fulfilled, rejected, or never settles. Rejection
  values are strings, as the one the channel itself produces is.
\<close>

datatype 'd response = Data 'd | Error string

datatype 'd outcome = Fulfilled 'd | RejectedWith string | Pending

datatype ('q, 'd) action =
    AdvanceQueue "'d response option"    \<comment> \<open>one evaluation; \<open>None\<close> is \<open>null\<close>\<close>
  | Dispatch 'q                          \<comment> \<open>\<open>this.ipcHandler(request)\<close>\<close>

datatype channel =
    ShutDown                             \<comment> \<open>the page answered \<open>null\<close>\<close>
  | AwaitingPage                         \<comment> \<open>an evaluation has not been answered\<close>
  | AwaitingHandler                      \<comment> \<open>the handler has not settled\<close>

text \<open>
  The first two callbacks of \<open>handleIpcRequest\<close>: the handler registered at that moment
  is called, and its outcome becomes the argument of the next evaluation.
\<close>

fun settle :: "('q \<Rightarrow> 'd outcome) option \<Rightarrow> 'q \<Rightarrow> ('q, 'd) action list \<times> 'd response option" where
  "settle None request = ([], Some (Error ''no IPC handler''))"
| "settle (Some ipcHandler) request =
     ([Dispatch request],
      (case ipcHandler request of
         Fulfilled d \<Rightarrow> Some (Data d)
       | RejectedWith e \<Rightarrow> Some (Error e)
       | Pending \<Rightarrow> None))"

text \<open>
  The page side is scripted: each element is the answer to one evaluation, paired with
  the value of \<open>this.ipcHandler\<close> when that answer arrives. An evaluation beyond the
  script is never answered.
\<close>

fun handleIpcRequest ::
  "(('q \<Rightarrow> 'd outcome) option \<times> 'q option) list \<Rightarrow> ('q \<Rightarrow> 'd outcome) option \<Rightarrow> 'q option
     \<Rightarrow> ('q, 'd) action list \<times> channel" where
  "handleIpcRequest script h None = ([], ShutDown)"
| "handleIpcRequest [] h (Some request) =
     (case settle h request of
        (acts, None) \<Rightarrow> (acts, AwaitingHandler)
      | (acts, Some resp) \<Rightarrow> (acts @ [AdvanceQueue (Some resp)], AwaitingPage))"
| "handleIpcRequest ((h', answer) # script) h (Some request) =
     (case settle h request of
        (acts, None) \<Rightarrow> (acts, AwaitingHandler)
      | (acts, Some resp) \<Rightarrow>
          (acts @ AdvanceQueue (Some resp) # fst (handleIpcRequest script h' answer),
           snd (handleIpcRequest script h' answer)))"

fun installIpcServer ::
  "(('q \<Rightarrow> 'd outcome) option \<times> 'q option) list \<Rightarrow> ('q, 'd) action list \<times> channel" where
  "installIpcServer [] = ([AdvanceQueue None], AwaitingPage)"
| "installIpcServer ((h, answer) # script) =
     (AdvanceQueue None # fst (handleIpcRequest script h answer),
      snd (handleIpcRequest script h answer))"

section \<open>Auxiliary definitions for the tab and the channel\<close>

text \<open>A browser that records everything, and a tab that has not navigated yet.\<close>

definition online :: browser where
  "online = \<lparr> isRecording = True, urlBypassesPersister = (\<lambda>u. False), getTitle = ''A'' \<rparr>"

definition emptyTab :: Tab where
  "emptyTab = \<lparr> activePage = None, archive = [] \<rparr>"

text \<open>
  What the channel does for one element of the script that holds a request: the
  handler's part, then the evaluation that carries the response.
\<close>

fun roundTrip :: "('q \<Rightarrow> 'd outcome) option \<times> 'q option \<Rightarrow> ('q, 'd) action list" where
  "roundTrip (h, None) = []"
| "roundTrip (h, Some request) =
     fst (settle h request) @ [AdvanceQueue (snd (settle h request))]"

text \<open>The requests a trace hands to a handler, in order.\<close>

fun dispatched :: "('q, 'd) action list \<Rightarrow> 'q list" where
  "dispatched [] = []"
| "dispatched (Dispatch request # acts) = request # dispatched acts"
| "dispatched (AdvanceQueue arg # acts) = dispatched acts"

text \<open>The handler registered for an element of the script settles its request.\<close>

fun settles :: "('q \<Rightarrow> 'd outcome) option \<times> 'q option \<Rightarrow> bool" where
  "settles (h, None) = True"
| "settles (Some ipcHandler, Some request) = (ipcHandler request \<noteq> Pending)"
| "settles (None, Some request) = True"

text \<open>The answer of the page is a request, not \<open>null\<close>.\<close>

fun hasRequest :: "('q \<Rightarrow> 'd outcome) option \<times> 'q option \<Rightarrow> bool" where
  "hasRequest (h, answer) = (answer \<noteq> None)"

text \<open>The request of an element of the script, when a handler is registered for it.\<close>

fun toHandler :: "('q \<Rightarrow> 'd outcome) option \<times> 'q option \<Rightarrow> 'q option" where
  "toHandler (None, answer) = None"
| "toHandler (Some ipcHandler, answer) = answer"

text \<open>A handler that answers with its request, and fails on the request \<open>fail\<close>.\<close>

definition echo :: "string \<Rightarrow> string outcome" where
  "echo request = (if request = ''fail'' then RejectedWith ''failed'' else Fulfilled request)"

section \<open>Properties of the frontier, stated for the proofs\<close>

text \<open>The queue holds no URL twice, and every queued URL is a known page.\<close>

definition frontierOK :: "crawl \<Rightarrow> bool" where
  "frontierOK c = (distinct (queue c) \<and> set (queue c) \<subseteq> allKnownPages c)"

text \<open>
  What one or more transitions do to the frontier: the known pages only grow, a good
  frontier stays good, and a URL that has entered the queue was not known before and
  passed the filter of \<open>examinePage\<close>.
\<close>

definition frontierStep :: "ScrapeConfig \<Rightarrow> crawl \<Rightarrow> crawl \<Rightarrow> bool" where
  "frontierStep cfg c c' =
     (allKnownPages c \<subseteq> allKnownPages c' \<and>
      (frontierOK c \<longrightarrow> frontierOK c') \<and>
      (\<forall>u \<in> set (queue c'). u \<in> set (queue c) \<or>
          (u \<notin> allKnownPages c \<and> knownRoot (rootUrls cfg) u)))"

text \<open>A URL is in scope when some configured root is a prefix of it.\<close>

definition inScope :: "ScrapeConfig \<Rightarrow> string \<Rightarrow> bool" where
  "inScope cfg x = list_ex (\<lambda>root. prefix root x) (rootUrls cfg)"

text \<open>The crawled pages a trace navigates to, in order.\<close>

fun loadedUrls :: "effect list \<Rightarrow> string list" where
  "loadedUrls [] = []"
| "loadedUrls (LoadURL u # es) = u # loadedUrls es"
| "loadedUrls (e # es) = loadedUrls es"

text \<open>
  Everything queued, about to be loaded, or loaded so far passed the filter of
  \<open>examinePage\<close> (the first page apart, which \<open>start()\<close> loads).
\<close>

definition scopeOK :: "ScrapeConfig \<Rightarrow> crawl \<Rightarrow> bool" where
  "scopeOK cfg c =
     (list_all (knownRoot (rootUrls cfg)) (queue c) \<and>
      (case pc c of AwaitDelay nextUrl \<Rightarrow> knownRoot (rootUrls cfg) nextUrl | _ \<Rightarrow> True) \<and>
      list_all (\<lambda>x. x = firstPage cfg \<or> knownRoot (rootUrls cfg) x) (loadedUrls (trace c)))"

section \<open>Proofs\<close>

subsection \<open>What the basic operations leave alone\<close>

lemma emit_fields [simp]:
  "status (emit e c) = status c" "allKnownPages (emit e c) = allKnownPages c"
  "queue (emit e c) = queue c" "stopping (emit e c) = stopping c"
  "notifyStopped (emit e c) = notifyStopped c" "url (emit e c) = url c"
  "loading (emit e c) = loading c" "activeTab (emit e c) = activeTab c"
  "recording (emit e c) = recording c" "pc (emit e c) = pc c"
  "trace (emit e c) = trace c @ [e]"
  by (simp_all add: emit_def)

lemma setState_fields [simp]:
  "state (status (setState s c)) = s"
  "pagesVisited (status (setState s c)) = pagesVisited (status c)"
  "allKnownPages (setState s c) = allKnownPages c"
  "queue (setState s c) = queue c" "stopping (setState s c) = stopping c"
  "notifyStopped (setState s c) = notifyStopped c" "url (setState s c) = url c"
  "loading (setState s c) = loading c" "activeTab (setState s c) = activeTab c"
  "recording (setState s c) = recording c" "pc (setState s c) = pc c"
  "trace (setState s c) = trace c"
  by (simp_all add: setState_def)

lemma report_fields [simp]:
  "state (status (report c)) = state (status c)"
  "pagesVisited (status (report c)) = pagesVisited (status c)"
  "pagesRemaining (status (report c)) = length (queue c)"
  "allKnownPages (report c) = allKnownPages c"
  "queue (report c) = queue c" "stopping (report c) = stopping c"
  "notifyStopped (report c) = notifyStopped c" "url (report c) = url c"
  "loading (report c) = loading c" "activeTab (report c) = activeTab c"
  "recording (report c) = recording c" "pc (report c) = pc c"
  "trace (report c) = trace c @ [Report ((status c)\<lparr> pagesRemaining := length (queue c) \<rparr>)]"
  by (simp_all add: report_def Let_def)

lemma tab_loadURL_fields [simp]:
  "status (tab_loadURL u c) = status c" "allKnownPages (tab_loadURL u c) = allKnownPages c"
  "queue (tab_loadURL u c) = queue c" "stopping (tab_loadURL u c) = stopping c"
  "notifyStopped (tab_loadURL u c) = notifyStopped c" "url (tab_loadURL u c) = url c"
  "loading (tab_loadURL u c) = True" "activeTab (tab_loadURL u c) = activeTab c"
  "recording (tab_loadURL u c) = recording c" "pc (tab_loadURL u c) = pc c"
  "trace (tab_loadURL u c) = trace c @ [LoadURL u]"
  by (simp_all add: tab_loadURL_def)

lemma finishStart_fields [simp]:
  "status (finishStart c) = status c" "allKnownPages (finishStart c) = allKnownPages c"
  "queue (finishStart c) = queue c" "stopping (finishStart c) = stopping c"
  "notifyStopped (finishStart c) = notifyStopped c" "pc (finishStart c) = Idle"
  "activeTab (finishStart c) = activeTab c"
  by (simp_all add: finishStart_def)

lemma crawlEnded_fields [simp]:
  "status (crawlEnded cfg c) = status c" "allKnownPages (crawlEnded cfg c) = allKnownPages c"
  "queue (crawlEnded cfg c) = queue c" "stopping (crawlEnded cfg c) = stopping c"
  "notifyStopped (crawlEnded cfg c) = notifyStopped c"
  "activeTab (crawlEnded cfg c) = activeTab c"
  by (simp_all add: crawlEnded_def)

lemma crawlEnded_pc: "pc (crawlEnded cfg c) \<in> {Idle, AwaitRecordingFinish}"
  by (simp add: crawlEnded_def)

lemma enqueue_fields [simp]:
  "status (enqueue links c) = status c" "stopping (enqueue links c) = stopping c"
  "notifyStopped (enqueue links c) = notifyStopped c" "url (enqueue links c) = url c"
  "loading (enqueue links c) = loading c" "activeTab (enqueue links c) = activeTab c"
  "recording (enqueue links c) = recording c" "pc (enqueue links c) = pc c"
  "trace (enqueue links c) = trace c"
  by (induction links arbitrary: c; simp)+

lemma enqueue_known: "allKnownPages (enqueue links c) = allKnownPages c \<union> set links"
  by (induction links arbitrary: c) auto


lemma enqueue_queue_set:
  "set (queue (enqueue links c)) = set (queue c) \<union> (set links - allKnownPages c)"
  by (induction links arbitrary: c) auto

lemma enqueue_frontierOK: "frontierOK c \<Longrightarrow> frontierOK (enqueue links c)"
proof (induction links arbitrary: c)
  case Nil
  then show ?case by simp
next
  case (Cons link links)
  show ?case
  proof (cases "link \<in> allKnownPages c")
    case True
    with Cons show ?thesis by simp
  next
    case False
    with Cons.prems have "frontierOK (c\<lparr> allKnownPages := insert link (allKnownPages c),
                queue := queue c @ [link] \<rparr>)"
      by (auto simp: frontierOK_def)
    from Cons.IH [OF this] False show ?thesis by simp
  qed
qed

lemma frontierStep_refl: "frontierStep cfg c c"
  by (simp add: frontierStep_def)

lemma frontierStep_trans:
  "frontierStep cfg c c' \<Longrightarrow> frontierStep cfg c' c'' \<Longrightarrow> frontierStep cfg c c''"
  unfolding frontierStep_def by blast

lemma frontierStep_same:
  "allKnownPages c' = allKnownPages c \<Longrightarrow> queue c' = queue c \<Longrightarrow> frontierStep cfg c c'"
  by (simp add: frontierStep_def frontierOK_def)

lemma frontierStep_examineLinks: "frontierStep cfg c (examineLinks cfg allLinks c)"
  by (auto simp: frontierStep_def examineLinks_def enqueue_known enqueue_queue_set
      intro: enqueue_frontierOK)

lemma frontierStep_loadNextPage: "frontierStep cfg c (loadNextPage cfg c)"
  by (auto simp: frontierStep_def frontierOK_def loadNextPage_def Let_def split: list.splits)

lemma frontierStep_pageSettled: "frontierStep cfg c (pageSettled cfg c)"
  by (auto simp: frontierStep_def frontierOK_def pageSettled_def examinePage_def
      loadNextPage_def Let_def split: list.splits)

lemma frontierStep_pre:
  "allKnownPages c1 = allKnownPages c \<Longrightarrow> queue c1 = queue c \<Longrightarrow> frontierStep cfg c1 c'
     \<Longrightarrow> frontierStep cfg c c'"
  by (simp add: frontierStep_def frontierOK_def)

lemma frontierStep_advanceQueue: "frontierStep cfg c (advanceQueue cfg c)"
  by (simp add: advanceQueue_def frontierStep_pageSettled frontierStep_same)

lemma frontierStep_start: "start cfg c = Inr c' \<Longrightarrow> frontierStep cfg c c'"
proof -
  assume a: "start cfg c = Inr c'"
  define c2 where
    "c2 = (if url (setState running c) \<noteq> firstPage cfg
           then tab_loadURL (firstPage cfg) (setState running c) else setState running c)"
  have k: "allKnownPages c2 = allKnownPages c" and q: "queue c2 = queue c"
    by (simp_all add: c2_def)
  from a have "c' = advanceQueue cfg c2
      \<or> c' = emit StartRecordingSession (c2\<lparr> pc := AwaitRecordingStart \<rparr>)"
    by (auto simp: start_def Let_def c2_def split: if_splits)
  then show ?thesis
  proof
    assume "c' = advanceQueue cfg c2"
    then show ?thesis
      using frontierStep_pre [OF k q frontierStep_advanceQueue] by simp
  next
    assume "c' = emit StartRecordingSession (c2\<lparr> pc := AwaitRecordingStart \<rparr>)"
    then show ?thesis by (simp add: frontierStep_same k q)
  qed
qed

lemma frontierStep_stop: "frontierStep cfg c (stop c)"
  by (simp add: stop_def frontierStep_same)

lemma frontierStep_step: "step cfg c ev = Some c' \<Longrightarrow> frontierStep cfg c c'"
proof (cases ev)
  case Start
  assume "step cfg c ev = Some c'"
  with Start show ?thesis
    by (auto simp: step_def frontierStep_refl split: if_splits sum.splits dest: frontierStep_start)
next
  case Stop
  assume "step cfg c ev = Some c'"
  with Stop show ?thesis by (auto simp: step_def frontierStep_stop)
next
  case RecordingStarted
  assume "step cfg c ev = Some c'"
  with RecordingStarted have "c' = c \<or> c' = advanceQueue cfg (c\<lparr> recording := True \<rparr>)"
    by (auto simp: step_def)
  then show ?thesis
    using frontierStep_pre [OF _ _ frontierStep_advanceQueue, of "c\<lparr> recording := True \<rparr>" c cfg]
    by (auto simp: frontierStep_refl)
next
  case (DidStopLoading u)
  assume "step cfg c ev = Some c'"
  with DidStopLoading have "c' = c\<lparr> url := u, loading := False \<rparr>
      \<or> c' = pageSettled cfg (c\<lparr> url := u, loading := False \<rparr>)"
    by (auto simp: step_def Let_def)
  then show ?thesis
    using frontierStep_pre [OF _ _ frontierStep_pageSettled,
        of "c\<lparr> url := u, loading := False \<rparr>" c cfg]
    by (auto simp: frontierStep_same)
next
  case (ScriptResult hrefs)
  assume "step cfg c ev = Some c'"
  with ScriptResult show ?thesis
    by (auto simp: step_def frontierStep_refl
        intro!: frontierStep_trans [OF frontierStep_examineLinks frontierStep_loadNextPage])
next
  case Rejected
  assume "step cfg c ev = Some c'"
  with Rejected show ?thesis
    by (auto simp: step_def frontierStep_refl frontierStep_same split: if_splits)
next
  case (TimerFired hasTokens)
  assume "step cfg c ev = Some c'"
  with TimerFired have "c' = c
      \<or> (\<exists>nextUrl. c' = advanceQueue cfg (tab_loadURL nextUrl (emit TakeTokens c)))"
    by (auto simp: step_def split: pc.splits if_splits)
  then show ?thesis
  proof
    assume "c' = c"
    then show ?thesis by (simp add: frontierStep_refl)
  next
    assume "\<exists>nextUrl. c' = advanceQueue cfg (tab_loadURL nextUrl (emit TakeTokens c))"
    then obtain nextUrl where "c' = advanceQueue cfg (tab_loadURL nextUrl (emit TakeTokens c))" ..
    then show ?thesis
      using frontierStep_pre [OF _ _ frontierStep_advanceQueue,
          of "tab_loadURL nextUrl (emit TakeTokens c)" c cfg]
      by simp
  qed
next
  case IntervalFired
  assume "step cfg c ev = Some c'"
  with IntervalFired show ?thesis
    by (auto simp: step_def frontierStep_refl frontierStep_same)
next
  case RecordingFinished
  assume "step cfg c ev = Some c'"
  with RecordingFinished show ?thesis
    by (auto simp: step_def frontierStep_refl frontierStep_same)
qed

lemma frontierStep_run: "run cfg c evs = Some c' \<Longrightarrow> frontierStep cfg c c'"
proof (induction evs arbitrary: c)
  case Nil
  then show ?case by (simp add: frontierStep_refl)
next
  case (Cons ev evs)
  then obtain c1 where s: "step cfg c ev = Some c1" and r: "run cfg c1 evs = Some c'"
    by (auto split: option.splits)
  from frontierStep_step [OF s] Cons.IH [OF r] show ?case
    by (rule frontierStep_trans)
qed

text \<open>The equations that evaluate a run on concrete events.\<close>

lemmas crawl_eval = exampleConfig_def exampleTab_def newRunner_def step_def start_def stop_def
  advanceQueue_def pageSettled_def examinePage_def examineLinks_def loadNextPage_def
  crawlEnded_def finishStart_def knownRoot_def stripHash_def Let_def
  report_def emit_def setState_def tab_loadURL_def

subsection \<open>The frontier\<close>

text \<open>
  Claim C4. Along every run of a runner, whatever the events: the set of known pages
  only grows, the queue never holds a URL twice, every queued URL is a known page, and a
  URL that is known and no longer queued never enters the queue again.
\<close>

theorem frontier_invariant:
  assumes "run cfg (newRunner u l a r) evs = Some c"
    and "run cfg c evs' = Some c'"
  shows "distinct (queue c) \<and> set (queue c) \<subseteq> allKnownPages c
         \<and> allKnownPages c \<subseteq> allKnownPages c'
         \<and> (\<forall>x \<in> allKnownPages c. x \<notin> set (queue c) \<longrightarrow> x \<notin> set (queue c'))"
proof -
  have "frontierOK (newRunner u l a r)"
    by (simp add: frontierOK_def newRunner_def)
  with frontierStep_run [OF assms(1)] have "frontierOK c"
    by (simp add: frontierStep_def)
  moreover from frontierStep_run [OF assms(2)]
  have "allKnownPages c \<subseteq> allKnownPages c'"
    and "\<forall>x \<in> set (queue c'). x \<in> set (queue c) \<or> x \<notin> allKnownPages c"
    by (auto simp: frontierStep_def)
  ultimately show ?thesis
    by (auto simp: frontierOK_def)
qed

theorem frontier_invariant_witness:
  "run exampleConfig exampleTab
     [Start, RecordingStarted, DidStopLoading ''https://example.com/a'',
      ScriptResult [''https://example.com/b'', ''https://example.com/c#top'',
                    ''https://example.com/b#x'']] \<noteq> None
   \<and> run exampleConfig
       (the (run exampleConfig exampleTab
         [Start, RecordingStarted, DidStopLoading ''https://example.com/a'',
          ScriptResult [''https://example.com/b'', ''https://example.com/c#top'',
                        ''https://example.com/b#x'']]))
       [TimerFired True, DidStopLoading ''https://example.com/b'',
        ScriptResult [''https://example.com/a'', ''https://example.com/c'']] \<noteq> None
   \<and> queue (the (run exampleConfig exampleTab
         [Start, RecordingStarted, DidStopLoading ''https://example.com/a'',
          ScriptResult [''https://example.com/b'', ''https://example.com/c#top'',
                        ''https://example.com/b#x'']])) = [''https://example.com/c'']
   \<and> ''https://example.com/b'' \<notin> set (queue (the (run exampleConfig
       (the (run exampleConfig exampleTab
         [Start, RecordingStarted, DidStopLoading ''https://example.com/a'',
          ScriptResult [''https://example.com/b'', ''https://example.com/c#top'',
                        ''https://example.com/b#x'']]))
       [TimerFired True, DidStopLoading ''https://example.com/b'',
        ScriptResult [''https://example.com/a'', ''https://example.com/c'']])))"
proof -
  let ?evs = "[Start, RecordingStarted, DidStopLoading ''https://example.com/a'',
      ScriptResult [''https://example.com/b'', ''https://example.com/c#top'',
                    ''https://example.com/b#x'']]"
  let ?evs' = "[TimerFired True, DidStopLoading ''https://example.com/b'',
        ScriptResult [''https://example.com/a'', ''https://example.com/c'']]"
  let ?c = "the (run exampleConfig exampleTab ?evs)"
  let ?c' = "the (run exampleConfig ?c ?evs')"
  have n1: "run exampleConfig exampleTab ?evs \<noteq> None"
    by (simp add: crawl_eval)
  have n2: "run exampleConfig ?c ?evs' \<noteq> None"
    by (simp add: crawl_eval)
  have q: "queue ?c = [''https://example.com/c'']"
    by (simp add: crawl_eval)
  have k: "''https://example.com/b'' \<in> allKnownPages ?c"
    by (simp add: crawl_eval)
  note r1 = option.collapse [OF n1, symmetric, unfolded exampleTab_def]
  note r2 = option.collapse [OF n2, symmetric, unfolded exampleTab_def]
  from frontier_invariant [OF r1 r2] k
  have nb: "''https://example.com/b'' \<notin> set (queue ?c')"
    using q by (auto simp: exampleTab_def)
  show ?thesis
    by (intro conjI n1 n2 q nb)
qed

subsection \<open>The status state\<close>

lemma state_loadNextPage:
  "state (status (loadNextPage cfg c)) = state (status c)
   \<or> state (status (loadNextPage cfg c)) = finished"
  by (simp add: loadNextPage_def Let_def split: list.splits)

lemma state_pageSettled:
  "state (status (pageSettled cfg c)) = state (status c)
   \<or> state (status (pageSettled cfg c)) = finished"
proof (cases "knownRoot (rootUrls cfg) (url c)")
  case True
  then show ?thesis by (simp add: pageSettled_def examinePage_def Let_def)
next
  case False
  then show ?thesis
    using state_loadNextPage [of cfg
        "report (c\<lparr> status := (status c)\<lparr> pagesVisited := pagesVisited (status c) + 1 \<rparr> \<rparr>)"]
    by (simp add: pageSettled_def examinePage_def Let_def)
qed

lemma state_advanceQueue:
  "state (status (advanceQueue cfg c)) = state (status c)
   \<or> state (status (advanceQueue cfg c)) = finished"
  using state_pageSettled [of cfg c] by (simp add: advanceQueue_def)

lemma state_start:
  assumes "start cfg c = Inr c'"
  shows "state (status c') = running \<or> state (status c') = finished"
proof -
  define c2 where
    "c2 = (if url (setState running c) \<noteq> firstPage cfg
           then tab_loadURL (firstPage cfg) (setState running c) else setState running c)"
  have s: "state (status c2) = running"
    by (simp add: c2_def)
  from assms have "c' = advanceQueue cfg c2
      \<or> c' = emit StartRecordingSession (c2\<lparr> pc := AwaitRecordingStart \<rparr>)"
    by (auto simp: start_def Let_def c2_def split: if_splits)
  then show ?thesis
    using state_advanceQueue [of cfg c2] s by auto
qed

lemma start_throws: "start cfg c = Inl err \<Longrightarrow> \<not> activeTab c"
  by (simp add: start_def Let_def split: if_splits)

lemma state_step:
  assumes "step cfg c ev = Some c'" and "ev \<noteq> Start" and "ev \<noteq> Stop"
  shows "state (status c') = state (status c) \<or> state (status c') = finished"
proof (cases ev)
  case RecordingStarted
  with assms(1) show ?thesis
    using state_advanceQueue [of cfg "c\<lparr> recording := True \<rparr>"]
    by (auto simp: step_def)
next
  case (DidStopLoading u)
  with assms(1) show ?thesis
    using state_pageSettled [of cfg "c\<lparr> url := u, loading := False \<rparr>"]
    by (auto simp: step_def Let_def)
next
  case (ScriptResult hrefs)
  with assms(1) show ?thesis
    using state_loadNextPage [of cfg "examineLinks cfg (map stripHash hrefs) c"]
    by (auto simp: step_def examineLinks_def)
next
  case Rejected
  with assms(1) show ?thesis
    by (auto simp: step_def split: if_splits)
next
  case (TimerFired hasTokens)
  with assms(1) have "c' = c
      \<or> (\<exists>nextUrl. c' = advanceQueue cfg (tab_loadURL nextUrl (emit TakeTokens c)))"
    by (auto simp: step_def split: pc.splits if_splits)
  then show ?thesis
  proof
    assume "c' = c"
    then show ?thesis by simp
  next
    assume "\<exists>nextUrl. c' = advanceQueue cfg (tab_loadURL nextUrl (emit TakeTokens c))"
    then obtain nextUrl where "c' = advanceQueue cfg (tab_loadURL nextUrl (emit TakeTokens c))" ..
    then show ?thesis
      using state_advanceQueue [of cfg "tab_loadURL nextUrl (emit TakeTokens c)"] by simp
  qed
next
  case IntervalFired
  with assms(1) show ?thesis
    by (auto simp: step_def)
next
  case RecordingFinished
  with assms(1) show ?thesis
    by (auto simp: step_def)
qed (use assms in simp_all)

lemma idle_step:
  assumes "step cfg c ev = Some c'" and "ev \<noteq> Start" and "ev \<noteq> Stop" and "pc c = Idle"
  shows "status c' = status c \<and> pc c' = Idle"
  using assms by (cases ev) (auto simp: step_def Let_def)

lemma state_run:
  assumes "run cfg c evs = Some c'" and "Start \<notin> set evs" and "Stop \<notin> set evs"
  shows "(state (status c') = state (status c) \<or> state (status c') = finished)
         \<and> (pc c = Idle \<longrightarrow> status c' = status c \<and> pc c' = Idle)"
  using assms
proof (induction evs arbitrary: c)
  case Nil
  then show ?case by simp
next
  case (Cons ev evs)
  then obtain c1 where s: "step cfg c ev = Some c1" and r: "run cfg c1 evs = Some c'"
    by (auto split: option.splits)
  from Cons.prems have ne: "ev \<noteq> Start" "ev \<noteq> Stop" "Start \<notin> set evs" "Stop \<notin> set evs"
    by auto
  from Cons.IH [OF r ne(3,4)] state_step [OF s ne(1,2)] idle_step [OF s ne(1,2)]
  show ?case by auto
qed

text \<open>
  Claim C3, as amended. In a run in which \<open>start()\<close> is called once, as the first
  operation, and \<open>stop()\<close> is not called, the status state moves only along
  initialized, running, finished: between any two moments of the run it is unchanged or
  has moved forward, it is never canceled, once finished no later event changes it, and
  with an active tab it is no longer initialized after \<open>start()\<close>.
\<close>

theorem state_transitions_without_stop:
  assumes "run cfg (newRunner u l a r) evs = Some c"
    and "run cfg c evs' = Some c'"
    and "evs @ evs' = Start # rest"
    and "Start \<notin> set rest" and "Stop \<notin> set rest"
  shows "(state (status c), state (status c')) \<in>
           {(initialized, initialized), (initialized, running), (initialized, finished),
            (running, running), (running, finished), (finished, finished)}
         \<and> (a \<and> evs \<noteq> [] \<longrightarrow> state (status c) \<noteq> initialized)"
proof (cases evs)
  case Nil
  with assms(1) have c: "c = newRunner u l a r" by simp
  from Nil assms(3) have e: "evs' = Start # rest" by simp
  with assms(2) obtain c1 where s: "step cfg c Start = Some c1" and r: "run cfg c1 rest = Some c'"
    by (auto split: option.splits)
  from s have "c1 = c \<or> start cfg c = Inr c1"
    by (auto simp: step_def split: if_splits sum.splits)
  with state_start have "state (status c1) \<in> {initialized, running, finished}"
    using c by (auto simp: newRunner_def)
  with state_run [OF r assms(4,5)] have "state (status c') \<in> {initialized, running, finished}"
    by auto
  moreover have "state (status c) = initialized"
    by (simp add: c newRunner_def)
  ultimately show ?thesis using Nil by auto
next
  case (Cons ev evs1)
  with assms(3) have ev: "ev = Start" and rest: "rest = evs1 @ evs'" by simp_all
  from assms(4,5) rest have n1: "Start \<notin> set evs1" "Stop \<notin> set evs1"
    and n2: "Start \<notin> set evs'" "Stop \<notin> set evs'" by simp_all
  from assms(1) Cons ev obtain c1 where s: "step cfg (newRunner u l a r) Start = Some c1"
    and r: "run cfg c1 evs1 = Some c"
    by (auto split: option.splits)
  from s have "(\<not> a \<and> c1 = newRunner u l a r) \<or> start cfg (newRunner u l a r) = Inr c1"
    using start_throws [of cfg "newRunner u l a r"]
    by (auto simp: step_def newRunner_def split: if_splits sum.splits)
  then have c1: "(\<not> a \<and> state (status c1) = initialized \<and> pc c1 = Idle)
      \<or> state (status c1) = running \<or> state (status c1) = finished"
    using state_start [of cfg "newRunner u l a r" c1] by (auto simp: newRunner_def)
  from state_run [OF r n1] c1
  have c: "(\<not> a \<and> state (status c) = initialized \<and> pc c = Idle)
      \<or> state (status c) = running \<or> state (status c) = finished"
    by auto
  from state_run [OF assms(2) n2] c show ?thesis
    by auto
qed

text \<open>
  A run of the scenario configuration: started, one page without links, finished.
\<close>

theorem state_transitions_without_stop_witness:
  "run exampleConfig exampleTab [Start, RecordingStarted] \<noteq> None
   \<and> run exampleConfig (the (run exampleConfig exampleTab [Start, RecordingStarted]))
         [DidStopLoading ''https://example.com/a'', ScriptResult [], RecordingFinished] \<noteq> None
   \<and> state (status (the (run exampleConfig exampleTab [Start, RecordingStarted]))) = running
   \<and> state (status (the (run exampleConfig
         (the (run exampleConfig exampleTab [Start, RecordingStarted]))
         [DidStopLoading ''https://example.com/a'', ScriptResult [], RecordingFinished])))
       \<in> {running, finished}"
proof -
  let ?evs = "[Start, RecordingStarted]"
  let ?evs' = "[DidStopLoading ''https://example.com/a'', ScriptResult [], RecordingFinished]"
  let ?c = "the (run exampleConfig exampleTab ?evs)"
  let ?c' = "the (run exampleConfig ?c ?evs')"
  have n1: "run exampleConfig exampleTab ?evs \<noteq> None"
    by (simp add: crawl_eval)
  have n2: "run exampleConfig ?c ?evs' \<noteq> None"
    by (simp add: crawl_eval)
  have s: "state (status ?c) = running"
    by (simp add: crawl_eval)
  note r1 = option.collapse [OF n1, symmetric, unfolded exampleTab_def]
  note r2 = option.collapse [OF n2, symmetric, unfolded exampleTab_def]
  have "(state (status ?c), state (status ?c')) \<in>
           {(initialized, initialized), (initialized, running), (initialized, finished),
            (running, running), (running, finished), (finished, finished)}"
    using state_transitions_without_stop [OF r1 r2, of "RecordingStarted # ?evs'", THEN conjunct1]
    by (simp add: exampleTab_def)
  with s have s': "state (status ?c') \<in> {running, finished}"
    by auto
  show ?thesis
    by (intro conjI n1 n2 s s')
qed

text \<open>
  Claim C3 as stated fails: \<open>start()\<close> sets the state to running whatever it was, so a
  second \<open>start()\<close> on a finished runner re-enters running.
\<close>

theorem restart_after_finished_counterexample:
  "map_option (state \<circ> status)
     (run exampleConfig exampleTab
        [Start, RecordingStarted, DidStopLoading ''https://example.com/a'', ScriptResult [],
         RecordingFinished]) = Some finished
   \<and> map_option (state \<circ> status)
     (run exampleConfig exampleTab
        [Start, RecordingStarted, DidStopLoading ''https://example.com/a'', ScriptResult [],
         RecordingFinished, Start]) = Some running"
  by (simp add: crawl_eval)

subsection \<open>Scope\<close>

lemma loadedUrls_append [simp]: "loadedUrls (xs @ ys) = loadedUrls xs @ loadedUrls ys"
  by (induction xs rule: loadedUrls.induct) simp_all

lemma knownRoot_inScope: "knownRoot (rootUrls cfg) x \<Longrightarrow> inScope cfg x"
  by (auto simp: knownRoot_def inScope_def list_ex_iff split: option.splits
      dest!: find_Some_iff [THEN iffD1] intro: nth_mem)

lemma loads_finishStart [simp]: "loadedUrls (trace (finishStart c)) = loadedUrls (trace c)"
  by (simp add: finishStart_def)

lemma loads_crawlEnded [simp]: "loadedUrls (trace (crawlEnded cfg c)) = loadedUrls (trace c)"
  by (simp add: crawlEnded_def)

lemma pc_crawlEnded_AwaitDelay [simp]: "pc (crawlEnded cfg c) \<noteq> AwaitDelay x"
  by (simp add: crawlEnded_def)

lemma scope_loadNextPage: "scopeOK cfg c \<Longrightarrow> scopeOK cfg (loadNextPage cfg c)"
  by (auto simp: scopeOK_def loadNextPage_def Let_def split: list.splits pc.splits)

lemma scope_examineLinks: "scopeOK cfg c \<Longrightarrow> scopeOK cfg (examineLinks cfg allLinks c)"
  by (auto simp: scopeOK_def examineLinks_def list_all_iff enqueue_queue_set)

lemma scope_pageSettled:
  assumes "scopeOK cfg c"
  shows "scopeOK cfg (pageSettled cfg c)"
proof (cases "knownRoot (rootUrls cfg) (url c)")
  case True
  with assms show ?thesis
    by (simp add: pageSettled_def examinePage_def Let_def scopeOK_def)
next
  case False
  let ?c1 = "report (c\<lparr> status := (status c)\<lparr> pagesVisited := pagesVisited (status c) + 1 \<rparr> \<rparr>)"
  from assms have "scopeOK cfg ?c1"
    by (simp add: scopeOK_def)
  from scope_loadNextPage [OF this] False show ?thesis
    by (simp add: pageSettled_def examinePage_def Let_def)
qed

lemma scope_advanceQueue:
  assumes "scopeOK cfg c"
  shows "scopeOK cfg (advanceQueue cfg c)"
proof -
  have "stopping c \<Longrightarrow> ?thesis"
    using assms by (auto simp: advanceQueue_def scopeOK_def split: pc.splits)
  moreover have "\<not> stopping c \<Longrightarrow> loading c \<Longrightarrow> ?thesis"
    using assms by (simp add: advanceQueue_def scopeOK_def)
  moreover have "\<not> stopping c \<Longrightarrow> \<not> loading c \<Longrightarrow> ?thesis"
    using scope_pageSettled [OF assms] by (simp add: advanceQueue_def)
  ultimately show ?thesis by blast
qed

lemma scope_start:
  assumes "start cfg c = Inr c'" and "scopeOK cfg c" and "pc c = Idle"
  shows "scopeOK cfg c'"
proof -
  define c2 where
    "c2 = (if url (setState running c) \<noteq> firstPage cfg
           then tab_loadURL (firstPage cfg) (setState running c) else setState running c)"
  have s: "scopeOK cfg c2"
    using assms(2,3) by (simp add: c2_def scopeOK_def)
  from assms(1) have "c' = advanceQueue cfg c2
      \<or> c' = emit StartRecordingSession (c2\<lparr> pc := AwaitRecordingStart \<rparr>)"
    by (auto simp: start_def Let_def c2_def split: if_splits)
  then show ?thesis
    using scope_advanceQueue [OF s] s by (auto simp: scopeOK_def)
qed

lemma scope_step:
  assumes "step cfg c ev = Some c'" and "scopeOK cfg c"
  shows "scopeOK cfg c'"
proof (cases ev)
  case Start
  with assms show ?thesis
    by (auto simp: step_def split: if_splits sum.splits dest: scope_start)
next
  case Stop
  with assms show ?thesis
    by (auto simp: step_def stop_def scopeOK_def)
next
  case RecordingStarted
  have "scopeOK cfg (c\<lparr> recording := True \<rparr>)"
    using assms(2) by (simp add: scopeOK_def)
  from scope_advanceQueue [OF this] RecordingStarted assms show ?thesis
    by (auto simp: step_def)
next
  case (DidStopLoading u)
  have s: "scopeOK cfg (c\<lparr> url := u, loading := False \<rparr>)"
    using assms(2) by (simp add: scopeOK_def)
  from scope_pageSettled [OF s] s DidStopLoading assms(1) show ?thesis
    by (auto simp: step_def Let_def)
next
  case (ScriptResult hrefs)
  with assms show ?thesis
    using scope_loadNextPage [OF scope_examineLinks [OF assms(2)], of "map stripHash hrefs"]
    by (auto simp: step_def)
next
  case Rejected
  with assms show ?thesis
    by (auto simp: step_def scopeOK_def split: if_splits)
next
  case (TimerFired hasTokens)
  with assms(1) have "c' = c
      \<or> (\<exists>nextUrl. pc c = AwaitDelay nextUrl
            \<and> c' = advanceQueue cfg (tab_loadURL nextUrl (emit TakeTokens c)))"
    by (auto simp: step_def split: pc.splits if_splits)
  then show ?thesis
  proof
    assume "c' = c"
    with assms(2) show ?thesis by simp
  next
    assume "\<exists>nextUrl. pc c = AwaitDelay nextUrl
            \<and> c' = advanceQueue cfg (tab_loadURL nextUrl (emit TakeTokens c))"
    then obtain nextUrl where p: "pc c = AwaitDelay nextUrl"
      and c': "c' = advanceQueue cfg (tab_loadURL nextUrl (emit TakeTokens c))"
      by blast
    from assms(2) p have "scopeOK cfg (tab_loadURL nextUrl (emit TakeTokens c))"
      by (simp add: scopeOK_def)
    from scope_advanceQueue [OF this] c' show ?thesis by simp
  qed
next
  case IntervalFired
  with assms show ?thesis
    by (auto simp: step_def scopeOK_def)
next
  case RecordingFinished
  with assms show ?thesis
    by (auto simp: step_def scopeOK_def)
qed

lemma scope_run: "run cfg c evs = Some c' \<Longrightarrow> scopeOK cfg c \<Longrightarrow> scopeOK cfg c'"
proof (induction evs arbitrary: c)
  case Nil
  then show ?case by simp
next
  case (Cons ev evs)
  then obtain c1 where s: "step cfg c ev = Some c1" and r: "run cfg c1 evs = Some c'"
    by (auto split: option.splits)
  from Cons.IH [OF r scope_step [OF s Cons.prems(2)]] show ?case .
qed

lemma not_inScope_knownRoot: "\<not> inScope cfg x \<Longrightarrow> \<not> knownRoot (rootUrls cfg) x"
  using knownRoot_inScope by blast

subsection \<open>Cancellation\<close>

text \<open>
  Claim C1, on the code. \<open>stop()\<close> is called while the cycle waits for the first page
  to load. The promise of \<open>stop()\<close> is fulfilled and the state is canceled at once: the
  cycle is still waiting for the load (\<open>AwaitLoad\<close>), it has not looked at the flag (no
  \<open>CycleExited\<close> in the trace), and no continuation was ever stored in
  \<open>notifyStopped\<close>.
\<close>

theorem stop_resolves_before_cycle_exits:
  "run exampleConfig exampleTab [Start, RecordingStarted, Stop] =
     Some \<lparr> status = \<lparr> state = canceled, pagesVisited = 0, pagesRemaining = 0 \<rparr>,
            allKnownPages = {}, queue = [], stopping = True, notifyStopped = False,
            url = ''about:blank'', loading = True, activeTab = True, recording = True,
            pc = AwaitLoad,
            trace = [LoadURL ''https://example.com/a'', StartRecordingSession,
                     Report \<lparr> state = canceled, pagesVisited = 0, pagesRemaining = 0 \<rparr>,
                     StopResolved] \<rparr>"
  by (simp add: crawl_eval)

text \<open>
  Claim C2, on the code. \<open>stop()\<close> is called while the second page loads. With a third
  URL in the queue, \<open>loadNextPage\<close> navigates to it after the call of \<open>stop()\<close>, and
  only then does \<open>advanceQueue\<close> find the flag. With an empty queue, \<open>loadNextPage\<close>
  sets the state to finished after \<open>stop()\<close> has set it to canceled.
\<close>

theorem stop_during_second_load:
  "run exampleConfig exampleTab
     [Start, RecordingStarted, DidStopLoading ''https://example.com/a'',
      ScriptResult [''https://example.com/b'', ''https://example.com/c''], TimerFired True,
      Stop, DidStopLoading ''https://example.com/b'', ScriptResult [], TimerFired True] =
     Some \<lparr> status = \<lparr> state = canceled, pagesVisited = 2, pagesRemaining = 1 \<rparr>,
            allKnownPages = {''https://example.com/c'', ''https://example.com/b'',
                             ''https://example.com/a''},
            queue = [], stopping = True, notifyStopped = False,
            url = ''https://example.com/b'', loading = True, activeTab = True,
            recording = True, pc = AwaitRecordingFinish,
            trace = [LoadURL ''https://example.com/a'', StartRecordingSession,
                     Report \<lparr> state = running, pagesVisited = 1, pagesRemaining = 0 \<rparr>,
                     ExecuteJavaScript, TakeTokens, LoadURL ''https://example.com/b'',
                     Report \<lparr> state = canceled, pagesVisited = 1, pagesRemaining = 1 \<rparr>,
                     StopResolved,
                     Report \<lparr> state = canceled, pagesVisited = 2, pagesRemaining = 1 \<rparr>,
                     ExecuteJavaScript, TakeTokens, LoadURL ''https://example.com/c'',
                     CycleExited, FinishRecordingSession] \<rparr>
   \<and> run exampleConfig exampleTab
     [Start, RecordingStarted, DidStopLoading ''https://example.com/a'',
      ScriptResult [''https://example.com/b''], TimerFired True,
      Stop, DidStopLoading ''https://example.com/b'', ScriptResult []] =
     Some \<lparr> status = \<lparr> state = finished, pagesVisited = 2, pagesRemaining = 0 \<rparr>,
            allKnownPages = {''https://example.com/b'', ''https://example.com/a''},
            queue = [], stopping = True, notifyStopped = False,
            url = ''https://example.com/b'', loading = False, activeTab = True,
            recording = True, pc = AwaitRecordingFinish,
            trace = [LoadURL ''https://example.com/a'', StartRecordingSession,
                     Report \<lparr> state = running, pagesVisited = 1, pagesRemaining = 0 \<rparr>,
                     ExecuteJavaScript, TakeTokens, LoadURL ''https://example.com/b'',
                     Report \<lparr> state = canceled, pagesVisited = 1, pagesRemaining = 0 \<rparr>,
                     StopResolved,
                     Report \<lparr> state = canceled, pagesVisited = 2, pagesRemaining = 0 \<rparr>,
                     ExecuteJavaScript,
                     Report \<lparr> state = finished, pagesVisited = 2, pagesRemaining = 0 \<rparr>,
                     FinishRecordingSession] \<rparr>"
  by (simp add: crawl_eval insert_commute)

subsection \<open>Fragments\<close>

text \<open>
  Claim C7, on the code. The links the script returns are stored without their
  fragments, but \<open>examinePage\<close> stores the URL of the page as \<open>tab.getURL()\<close> gives
  it. A page reached as \<open>/a#top\<close> is stored with its fragment; its link to itself is
  then new, and the page is queued again.
\<close>

theorem page_url_stored_with_fragment:
  "run exampleConfig exampleTab
     [Start, RecordingStarted, DidStopLoading ''https://example.com/a#top'',
      ScriptResult [''https://example.com/a#top'']] =
     Some \<lparr> status = \<lparr> state = running, pagesVisited = 1, pagesRemaining = 0 \<rparr>,
            allKnownPages = {''https://example.com/a'', ''https://example.com/a#top''},
            queue = [], stopping = False, notifyStopped = False,
            url = ''https://example.com/a#top'', loading = False, activeTab = True,
            recording = True, pc = AwaitDelay ''https://example.com/a'',
            trace = [LoadURL ''https://example.com/a'', StartRecordingSession,
                     Report \<lparr> state = running, pagesVisited = 1, pagesRemaining = 0 \<rparr>,
                     ExecuteJavaScript] \<rparr>"
  by (simp add: crawl_eval insert_commute)

subsection \<open>Pages and links out of scope\<close>

text \<open>
  Claim C9. When no configured root is a prefix of the URL of the settled page,
  \<open>examinePage\<close> adds one to \<open>pagesVisited\<close>, reports once, sends no script to the
  page (its promise is already fulfilled), and leaves the known pages and the queue as
  they are.
\<close>

theorem examinePage_out_of_scope:
  assumes "\<not> inScope cfg (url c)"
  shows "examinePage cfg c =
           (False,
            c\<lparr> status := \<lparr> state = state (status c),
                            pagesVisited = pagesVisited (status c) + 1,
                            pagesRemaining = length (queue c) \<rparr>,
               trace := trace c @
                 [Report \<lparr> state = state (status c),
                           pagesVisited = pagesVisited (status c) + 1,
                           pagesRemaining = length (queue c) \<rparr>] \<rparr>)
         \<and> allKnownPages (snd (examinePage cfg c)) = allKnownPages c
         \<and> queue (snd (examinePage cfg c)) = queue c"
  using not_inScope_knownRoot [OF assms]
  by (simp add: examinePage_def report_def emit_def Let_def)

text \<open>The tab showing a page of another site.\<close>

theorem examinePage_out_of_scope_witness:
  "\<not> inScope exampleConfig ''https://other.org/x''
   \<and> examinePage exampleConfig (exampleTab\<lparr> url := ''https://other.org/x'' \<rparr>) =
       (False,
        exampleTab\<lparr> url := ''https://other.org/x'',
           status := \<lparr> state = initialized, pagesVisited = 1, pagesRemaining = 0 \<rparr>,
           trace := [Report \<lparr> state = initialized, pagesVisited = 1, pagesRemaining = 0 \<rparr>] \<rparr>)"
proof -
  have n: "\<not> inScope exampleConfig (url (exampleTab\<lparr> url := ''https://other.org/x'' \<rparr>))"
    by (simp add: inScope_def exampleConfig_def)
  from examinePage_out_of_scope [OF n] n show ?thesis
    by (simp add: exampleTab_def newRunner_def)
qed

text \<open>
  Claim C8. At every moment of every run, each URL in the queue, the URL about to be
  loaded and each crawled URL loaded so far (the first page apart) has a configured
  root as a prefix, and a link that has none is not in the queue after
  \<open>examinePage\<close> has processed any list of links. In scenario 1 the link \<open>/b\<close> is
  taken from the queue for loading and the external link is not queued; the run ends
  finished with two pages visited, having loaded \<open>/a\<close> and \<open>/b\<close> only.
\<close>

theorem only_in_scope_links_enqueued:
  assumes "run cfg (newRunner u l a r) evs = Some c"
  shows "(\<forall>x \<in> set (queue c). inScope cfg x)
         \<and> (\<forall>x. pc c = AwaitDelay x \<longrightarrow> inScope cfg x)
         \<and> (\<forall>x \<in> set (loadedUrls (trace c)). x = firstPage cfg \<or> inScope cfg x)
         \<and> (\<forall>allLinks x. \<not> inScope cfg x \<longrightarrow> x \<notin> set (queue (examineLinks cfg allLinks c)))
         \<and> run exampleConfig exampleTab
             [Start, RecordingStarted, DidStopLoading ''https://example.com/a'',
              ScriptResult [''https://example.com/b'', ''https://other.org/x'']] =
             Some \<lparr> status = \<lparr> state = running, pagesVisited = 1, pagesRemaining = 0 \<rparr>,
                    allKnownPages = {''https://example.com/b'', ''https://example.com/a''},
                    queue = [], stopping = False, notifyStopped = False,
                    url = ''https://example.com/a'', loading = False, activeTab = True,
                    recording = True, pc = AwaitDelay ''https://example.com/b'',
                    trace = [LoadURL ''https://example.com/a'', StartRecordingSession,
                             Report \<lparr> state = running, pagesVisited = 1, pagesRemaining = 0 \<rparr>,
                             ExecuteJavaScript] \<rparr>
         \<and> run exampleConfig exampleTab
             [Start, RecordingStarted, DidStopLoading ''https://example.com/a'',
              ScriptResult [''https://example.com/b'', ''https://other.org/x''],
              TimerFired True, DidStopLoading ''https://example.com/b'', ScriptResult [],
              RecordingFinished] =
             Some \<lparr> status = \<lparr> state = finished, pagesVisited = 2, pagesRemaining = 0 \<rparr>,
                    allKnownPages = {''https://example.com/b'', ''https://example.com/a''},
                    queue = [], stopping = False, notifyStopped = False,
                    url = ''https://example.com/b'', loading = True, activeTab = True,
                    recording = False, pc = Idle,
                    trace = [LoadURL ''https://example.com/a'', StartRecordingSession,
                             Report \<lparr> state = running, pagesVisited = 1, pagesRemaining = 0 \<rparr>,
                             ExecuteJavaScript, TakeTokens, LoadURL ''https://example.com/b'',
                             Report \<lparr> state = running, pagesVisited = 2, pagesRemaining = 0 \<rparr>,
                             ExecuteJavaScript,
                             Report \<lparr> state = finished, pagesVisited = 2, pagesRemaining = 0 \<rparr>,
                             FinishRecordingSession, LoadAllPages, StartResolved] \<rparr>"
proof -
  have "scopeOK cfg (newRunner u l a r)"
    by (simp add: scopeOK_def newRunner_def)
  from scope_run [OF assms this] have s: "scopeOK cfg c" .
  then have q: "\<forall>x \<in> set (queue c). inScope cfg x"
    by (auto simp: scopeOK_def list_all_iff intro: knownRoot_inScope)
  from s have p: "\<forall>x. pc c = AwaitDelay x \<longrightarrow> inScope cfg x"
    by (auto simp: scopeOK_def intro: knownRoot_inScope)
  from s have t: "\<forall>x \<in> set (loadedUrls (trace c)). x = firstPage cfg \<or> inScope cfg x"
    by (auto simp: scopeOK_def list_all_iff intro: knownRoot_inScope)
  from scope_examineLinks [OF s]
  have e: "\<forall>allLinks x. \<not> inScope cfg x \<longrightarrow> x \<notin> set (queue (examineLinks cfg allLinks c))"
    by (auto simp: scopeOK_def list_all_iff dest: not_inScope_knownRoot)
  have x1: "run exampleConfig exampleTab
             [Start, RecordingStarted, DidStopLoading ''https://example.com/a'',
              ScriptResult [''https://example.com/b'', ''https://other.org/x'']] =
             Some \<lparr> status = \<lparr> state = running, pagesVisited = 1, pagesRemaining = 0 \<rparr>,
                    allKnownPages = {''https://example.com/b'', ''https://example.com/a''},
                    queue = [], stopping = False, notifyStopped = False,
                    url = ''https://example.com/a'', loading = False, activeTab = True,
                    recording = True, pc = AwaitDelay ''https://example.com/b'',
                    trace = [LoadURL ''https://example.com/a'', StartRecordingSession,
                             Report \<lparr> state = running, pagesVisited = 1, pagesRemaining = 0 \<rparr>,
                             ExecuteJavaScript] \<rparr>"
    by (simp add: crawl_eval insert_commute)
  have x2: "run exampleConfig exampleTab
             [Start, RecordingStarted, DidStopLoading ''https://example.com/a'',
              ScriptResult [''https://example.com/b'', ''https://other.org/x''],
              TimerFired True, DidStopLoading ''https://example.com/b'', ScriptResult [],
              RecordingFinished] =
             Some \<lparr> status = \<lparr> state = finished, pagesVisited = 2, pagesRemaining = 0 \<rparr>,
                    allKnownPages = {''https://example.com/b'', ''https://example.com/a''},
                    queue = [], stopping = False, notifyStopped = False,
                    url = ''https://example.com/b'', loading = True, activeTab = True,
                    recording = False, pc = Idle,
                    trace = [LoadURL ''https://example.com/a'', StartRecordingSession,
                             Report \<lparr> state = running, pagesVisited = 1, pagesRemaining = 0 \<rparr>,
                             ExecuteJavaScript, TakeTokens, LoadURL ''https://example.com/b'',
                             Report \<lparr> state = running, pagesVisited = 2, pagesRemaining = 0 \<rparr>,
                             ExecuteJavaScript,
                             Report \<lparr> state = finished, pagesVisited = 2, pagesRemaining = 0 \<rparr>,
                             FinishRecordingSession, LoadAllPages, StartResolved] \<rparr>"
    by (simp add: crawl_eval insert_commute)
  show ?thesis
    by (intro conjI q p t e x1 x2)
qed

text \<open>Scenario 1 after the links of the first page have arrived.\<close>

theorem only_in_scope_links_enqueued_witness:
  "run exampleConfig exampleTab
     [Start, RecordingStarted, DidStopLoading ''https://example.com/a'',
      ScriptResult [''https://example.com/b'', ''https://other.org/x'']] \<noteq> None
   \<and> pc (the (run exampleConfig exampleTab
     [Start, RecordingStarted, DidStopLoading ''https://example.com/a'',
      ScriptResult [''https://example.com/b'', ''https://other.org/x'']]))
       = AwaitDelay ''https://example.com/b''
   \<and> inScope exampleConfig ''https://example.com/b''
   \<and> \<not> inScope exampleConfig ''https://other.org/x''"
proof -
  let ?evs = "[Start, RecordingStarted, DidStopLoading ''https://example.com/a'',
      ScriptResult [''https://example.com/b'', ''https://other.org/x'']]"
  let ?c = "the (run exampleConfig exampleTab ?evs)"
  have n: "run exampleConfig exampleTab ?evs \<noteq> None"
    by (simp add: crawl_eval)
  have p: "pc ?c = AwaitDelay ''https://example.com/b''"
    by (simp add: crawl_eval)
  note r = option.collapse [OF n, symmetric, unfolded exampleTab_def]
  from only_in_scope_links_enqueued [OF r] p
  have i: "inScope exampleConfig ''https://example.com/b''"
    by (simp add: exampleTab_def)
  have o: "\<not> inScope exampleConfig ''https://other.org/x''"
    by (simp add: inScope_def exampleConfig_def)
  show ?thesis
    by (intro conjI n p i o)
qed

subsection \<open>The tab\<close>

lemma handle_unbound:
  assumes "activePage t = None" and "list_all (\<lambda>(b, ev). \<not> isDidNavigate ev) evs"
  shows "foldl handle t evs = t"
  using assms
proof (induction evs arbitrary: t)
  case Nil
  then show ?case by simp
next
  case (Cons e evs)
  obtain b ev where e: "e = (b, ev)" by (cases e)
  with Cons.prems have "handle t e = t"
    by (cases ev) (simp_all add: handleTitleUpdated_def handleInPageNavigation_def)
  with Cons show ?case by simp
qed

text \<open>
  Claim C10. After \<open>handleNavigation\<close> the tab has an active page tracker exactly
  when recording is active, the URL is not excluded from recording and the status code
  is positive. Otherwise the tracker is cleared, and whatever title changes, in-page
  navigations, loads and load failures follow, no call goes to the archive and no
  tracker appears until the next \<open>did-navigate\<close> event.
\<close>

theorem handleNavigation_binding:
  "(activePage (handleNavigation b u statusCode t) \<noteq> None
      \<longleftrightarrow> isRecording b \<and> \<not> urlBypassesPersister b u \<and> statusCode > 0)
   \<and> (\<not> (isRecording b \<and> \<not> urlBypassesPersister b u \<and> statusCode > 0)
        \<longrightarrow> list_all (\<lambda>(b', ev). \<not> isDidNavigate ev) evs
        \<longrightarrow> activePage (foldl handle (handleNavigation b u statusCode t) evs) = None
            \<and> archive (foldl handle (handleNavigation b u statusCode t) evs) = archive t)"
proof -
  have 1: "activePage (handleNavigation b u statusCode t) \<noteq> None
      \<longleftrightarrow> isRecording b \<and> \<not> urlBypassesPersister b u \<and> statusCode > 0"
    by (simp add: handleNavigation_def newPageTracker_def)
  have 2: "activePage (foldl handle (handleNavigation b u statusCode t) evs) = None
            \<and> archive (foldl handle (handleNavigation b u statusCode t) evs) = archive t"
    if n: "\<not> (isRecording b \<and> \<not> urlBypassesPersister b u \<and> statusCode > 0)"
      and e: "list_all (\<lambda>(b', ev). \<not> isDidNavigate ev) evs"
  proof -
    from n have h: "handleNavigation b u statusCode t = t\<lparr> activePage := None \<rparr>"
      by (auto simp: handleNavigation_def)
    have "foldl handle (t\<lparr> activePage := None \<rparr>) evs = t\<lparr> activePage := None \<rparr>"
      by (rule handle_unbound [OF _ e]) simp
    with h show ?thesis by simp
  qed
  from 1 2 show ?thesis by blast
qed


text \<open>
  A recorded page, then a navigation with status code 0, then a title change and an
  in-page navigation: the archive still holds the call of the first page only.
\<close>

theorem handleNavigation_binding_witness:
  "\<not> (isRecording online \<and> \<not> urlBypassesPersister online ''https://example.com/b'' \<and> (0::int) > 0)
   \<and> list_all (\<lambda>(b', ev). \<not> isDidNavigate ev)
        [(online, PageTitleUpdated ''B''), (online, DidNavigateInPage ''https://example.com/b#x'' True)]
   \<and> activePage (handleNavigation online ''https://example.com/a'' 200 emptyTab) \<noteq> None
   \<and> archive (foldl handle
        (handleNavigation online ''https://example.com/b'' 0
           (handleNavigation online ''https://example.com/a'' 200 emptyTab))
        [(online, PageTitleUpdated ''B''), (online, DidNavigateInPage ''https://example.com/b#x'' True)])
      = [UpsertPage ''https://example.com/a'' ''A'' None]"
proof -
  let ?t = "handleNavigation online ''https://example.com/a'' 200 emptyTab"
  let ?evs = "[(online, PageTitleUpdated ''B''), (online, DidNavigateInPage ''https://example.com/b#x'' True)]"
  have n: "\<not> (isRecording online \<and> \<not> urlBypassesPersister online ''https://example.com/b'' \<and> (0::int) > 0)"
    by simp
  have e: "list_all (\<lambda>(b', ev). \<not> isDidNavigate ev) ?evs"
    by simp
  have a: "archive ?t = [UpsertPage ''https://example.com/a'' ''A'' None]"
    by (simp add: handleNavigation_def newPageTracker_def online_def emptyTab_def)
  have q: "isRecording online \<and> \<not> urlBypassesPersister online ''https://example.com/a'' \<and> (200::int) > 0"
    by (simp add: online_def)
  from handleNavigation_binding [of online "''https://example.com/a''" 200 emptyTab] q
  have b: "activePage ?t \<noteq> None" by blast
  from handleNavigation_binding [of online "''https://example.com/b''" 0 ?t ?evs] n e a
  have r: "archive (foldl handle (handleNavigation online ''https://example.com/b'' 0 ?t) ?evs)
      = [UpsertPage ''https://example.com/a'' ''A'' None]"
    by simp
  show ?thesis
    by (intro conjI n e b r)
qed

subsection \<open>The channel\<close>

lemma handleIpcRequest_shape:
  assumes "list_all settles ((h, answer) # script)"
  shows "handleIpcRequest script h answer =
           (concat (map roundTrip (takeWhile hasRequest ((h, answer) # script))),
            if list_all hasRequest ((h, answer) # script) then AwaitingPage else ShutDown)"
  using assms
proof (induction script h answer rule: handleIpcRequest.induct)
  case (1 script h)
  then show ?case by simp
next
  case (2 h request)
  then show ?case
    by (cases h) (auto split: outcome.splits)
next
  case (3 h' answer script h request)
  from "3.prems" have s: "list_all settles ((h', answer) # script)" by simp
  have "\<exists>resp. snd (settle h request) = Some resp"
  proof (cases h)
    case None
    then show ?thesis by simp
  next
    case (Some ipcHandler)
    with "3.prems" show ?thesis
      by (cases "ipcHandler request") simp_all
  qed
  then obtain resp where r: "snd (settle h request) = Some resp" ..
  from r obtain acts where st: "settle h request = (acts, Some resp)"
    by (cases "settle h request") auto
  from "3.IH" [OF st [symmetric] refl s] st show ?case
    by simp
qed

lemma dispatched_append [simp]: "dispatched (xs @ ys) = dispatched xs @ dispatched ys"
  by (induction xs rule: dispatched.induct) simp_all

lemma dispatched_roundTrips:
  "dispatched (concat (map roundTrip (takeWhile hasRequest script)))
     = List.map_filter toHandler (takeWhile hasRequest script)"
proof (induction script)
  case Nil
  then show ?case by simp
next
  case (Cons e script)
  obtain h answer where e: "e = (h, answer)" by (cases e)
  show ?case
  proof (cases answer)
    case None
    with e show ?thesis by simp
  next
    case (Some request)
    with e Cons show ?thesis
      by (cases h) simp_all
  qed
qed

text \<open>
  Claim C5. When every handler settles, the trace of the channel is the first
  evaluation with \<open>null\<close> followed, for each request up to the first \<open>null\<close> answer
  and in the order of the answers, by the call of the handler and the one evaluation
  that carries its response: the next request is the answer to that evaluation. The
  requests handed to handlers are those requests, in that order. The channel shuts down
  on the first \<open>null\<close> answer. For the answers \<open>[null]\<close> there is one evaluation and
  no call of a handler; for \<open>[reqA, null]\<close> the handler is called with \<open>reqA\<close>, one
  evaluation carries its response, and the channel shuts down.
\<close>

theorem ipc_requests_one_at_a_time:
  assumes "list_all settles script"
  shows "fst (installIpcServer script) =
           AdvanceQueue None # concat (map roundTrip (takeWhile hasRequest script))
         \<and> snd (installIpcServer script) =
             (if list_all hasRequest script then AwaitingPage else ShutDown)
         \<and> dispatched (fst (installIpcServer script)) =
             List.map_filter toHandler (takeWhile hasRequest script)
         \<and> installIpcServer [(h0, None)] = ([AdvanceQueue None], ShutDown)
         \<and> (f reqA = Fulfilled d \<longrightarrow>
              installIpcServer [(Some f, Some reqA), (h1, None)] =
                ([AdvanceQueue None, Dispatch reqA, AdvanceQueue (Some (Data d))], ShutDown))
         \<and> (f reqA = RejectedWith e \<longrightarrow>
              installIpcServer [(Some f, Some reqA), (h1, None)] =
                ([AdvanceQueue None, Dispatch reqA, AdvanceQueue (Some (Error e))], ShutDown))"
proof -
  have p: "installIpcServer script =
             (AdvanceQueue None # concat (map roundTrip (takeWhile hasRequest script)),
              if list_all hasRequest script then AwaitingPage else ShutDown)"
  proof (cases script)
    case Nil
    then show ?thesis by simp
  next
    case (Cons e rest)
    obtain h answer where e: "e = (h, answer)" by (cases e)
    from assms Cons e have "list_all settles ((h, answer) # rest)" by simp
    from handleIpcRequest_shape [OF this] Cons e show ?thesis by simp
  qed
  have 1: "fst (installIpcServer script) =
           AdvanceQueue None # concat (map roundTrip (takeWhile hasRequest script))"
    by (simp add: p)
  have 2: "snd (installIpcServer script) =
             (if list_all hasRequest script then AwaitingPage else ShutDown)"
    by (simp add: p)
  have 3: "dispatched (fst (installIpcServer script)) =
             List.map_filter toHandler (takeWhile hasRequest script)"
    by (simp add: 1 dispatched_roundTrips)
  have 4: "installIpcServer [(h0, None)] = ([AdvanceQueue None], ShutDown)"
    by simp
  have 5: "f reqA = Fulfilled d \<longrightarrow>
              installIpcServer [(Some f, Some reqA), (h1, None)] =
                ([AdvanceQueue None, Dispatch reqA, AdvanceQueue (Some (Data d))], ShutDown)"
    by simp
  have 6: "f reqA = RejectedWith e \<longrightarrow>
              installIpcServer [(Some f, Some reqA), (h1, None)] =
                ([AdvanceQueue None, Dispatch reqA, AdvanceQueue (Some (Error e))], ShutDown)"
    by simp
  show ?thesis
    by (intro conjI 1 2 3 4 5 6)
qed


text \<open>A script of five answers, the fourth of them \<open>null\<close>.\<close>

theorem ipc_requests_one_at_a_time_witness:
  "list_all settles
     [(Some echo, Some ''a''), (Some echo, Some ''fail''), (None, Some ''c''),
      (Some echo, None), (Some echo, Some ''d'')]
   \<and> echo ''a'' = Fulfilled ''a''
   \<and> echo ''fail'' = RejectedWith ''failed''
   \<and> dispatched (fst (installIpcServer
         [(Some echo, Some ''a''), (Some echo, Some ''fail''), (None, Some ''c''),
          (Some echo, None), (Some echo, Some ''d'')])) = [''a'', ''fail'']
   \<and> snd (installIpcServer
         [(Some echo, Some ''a''), (Some echo, Some ''fail''), (None, Some ''c''),
          (Some echo, None), (Some echo, Some ''d'')]) = ShutDown
   \<and> installIpcServer [(Some echo, Some ''a''), (None, None)] =
         ([AdvanceQueue None, Dispatch ''a'', AdvanceQueue (Some (Data ''a''))], ShutDown)
   \<and> installIpcServer [(Some echo, Some ''fail''), (None, None)] =
         ([AdvanceQueue None, Dispatch ''fail'', AdvanceQueue (Some (Error ''failed''))],
          ShutDown)"
proof -
  let ?script = "[(Some echo, Some ''a''), (Some echo, Some ''fail''), (None, Some ''c''),
      (Some echo, None), (Some echo, Some ''d'')]"
  have s: "list_all settles ?script"
    by (simp add: echo_def)
  have a: "echo ''a'' = Fulfilled ''a''" and f: "echo ''fail'' = RejectedWith ''failed''"
    by (simp_all add: echo_def)
  note t = ipc_requests_one_at_a_time [OF s]
  from t [of None echo "''a''" "''a''" None "''failed''"]
  have d: "dispatched (fst (installIpcServer ?script)) = [''a'', ''fail'']"
    and e: "snd (installIpcServer ?script) = ShutDown"
    by (simp_all add: map_filter_simps)
  from t [of None echo "''a''" "''a''" None "''failed''"] a
  have x: "installIpcServer [(Some echo, Some ''a''), (None, None)] =
         ([AdvanceQueue None, Dispatch ''a'', AdvanceQueue (Some (Data ''a''))], ShutDown)"
    by blast
  from t [of None echo "''fail''" "''a''" None "''failed''"] f
  have y: "installIpcServer [(Some echo, Some ''fail''), (None, None)] =
         ([AdvanceQueue None, Dispatch ''fail'', AdvanceQueue (Some (Error ''failed''))],
          ShutDown)"
    by blast
  show ?thesis
    by (intro conjI s a f d e x y)
qed

text \<open>
  Claim C6. A request that arrives while no handler is registered is answered in the
  next evaluation with the error \<open>no IPC handler\<close>, always the same value, without a
  call of any handler; the answer to that evaluation is processed as the next request.
\<close>

theorem no_handler_rejects:
  "handleIpcRequest [] None (Some request) =
     ([AdvanceQueue (Some (Error ''no IPC handler''))], AwaitingPage)
   \<and> handleIpcRequest ((h', answer) # script) None (Some request) =
     (AdvanceQueue (Some (Error ''no IPC handler'')) # fst (handleIpcRequest script h' answer),
      snd (handleIpcRequest script h' answer))"
  by simp

end
